theory Spec2Isabelle
  imports Main "HOL-Library.AList"
begin

section \<open>Promises, exceptions and the log\<close>

text \<open>
  A JavaScript \<open>Error\<close> is kept by its message. A settled promise is either resolved
  with a value or rejected with an error. \<open>p.catch(h)\<close> turns a rejection into a
  resolution with whatever the handler returns (the handler may change state it closes
  over); \<open>await p\<close> returns the value of a resolved promise and throws the error of a
  rejected one. A thrown error is the \<open>Inl\<close> of a sum.
\<close>

type_synonym error = string

datatype 'a promise = Resolved 'a | Rejected error

fun catch :: "'a promise \<Rightarrow> (error \<Rightarrow> 'st \<Rightarrow> 'a \<times> 'st) \<Rightarrow> 'st \<Rightarrow> 'a promise \<times> 'st" where
  "catch (Resolved a) h st = (Resolved a, st)"
| "catch (Rejected e) h st = (case h e st of (a, st') \<Rightarrow> (Resolved a, st'))"

fun await :: "'a promise \<Rightarrow> error + 'a" where
  "await (Resolved a) = Inr a"
| "await (Rejected e) = Inl e"

text \<open>A line of the log: the level, the format string and its arguments.\<close>

datatype logline = Info string "string list" | Error string "string list"

section \<open>The persistence layer\<close>

text \<open>
  \<open>levelup(leveldown(path))\<close> and the methods \<open>get\<close>, \<open>put\<close>, \<open>del\<close> and \<open>close\<close>
  of the object it returns belong to an external library. The engine is modelled over
  any such layer: \<open>'db\<close> is the identity of a database object, \<open>'w\<close> the state of the
  world behind it (files, open handles, faults), and every call returns the settled
  promise together with the world it leaves. \<open>db.get\<close> resolves with \<open>Some v\<close> for a
  value and with \<open>None\<close> for \<open>undefined\<close>.
\<close>

record ('db, 'w) level =
  levelup :: "string \<Rightarrow> 'w \<Rightarrow> 'db \<times> 'w"
  db_get :: "'db \<Rightarrow> string \<Rightarrow> 'w \<Rightarrow> string option promise \<times> 'w"
  db_put :: "'db \<Rightarrow> string \<Rightarrow> string \<Rightarrow> 'w \<Rightarrow> unit promise \<times> 'w"
  db_del :: "'db \<Rightarrow> string \<Rightarrow> 'w \<Rightarrow> unit promise \<times> 'w"
  db_close :: "'db \<Rightarrow> 'w \<Rightarrow> unit promise \<times> 'w"

section \<open>The storage engine\<close>

record 'db StoreDetails =
  lastAccessed :: int
  name :: string
  db :: 'db

text \<open>
  The fields of \<open>CNStorageEngine\<close>. \<open>stores\<close> is the \<open>Map\<close> in insertion order.
  \<open>closeStorageTimer\<close> is the timer that the field holds, \<open>None\<close> for \<open>undefined\<close>.
  \<open>logged\<close> collects the lines written by \<open>this.info\<close> and \<open>this.error\<close>,
  \<open>closeCalls\<close> the database objects on which \<open>close()\<close> was invoked, in order, and
  \<open>world\<close> is the state of the persistence layer. \<open>timers\<close> are the interval timers
  that the runtime is running for this engine, each with its number and its period, and
  \<open>timerCount\<close> is the number of timers created so far.

  Times are milliseconds as integers; every method takes the reading of \<open>Date.now()\<close>
  as its argument \<open>now\<close>. \<open>keepOpenInterval\<close> is the configured number of seconds
  times 1000 (a configuration string that is no number is outside the model). Calls run
  one at a time: nothing else happens between the beginning of a call and its end.
\<close>

record ('db, 'w) engine =
  storageDir :: string
  keepOpenInterval :: int
  closeStorageTimer :: "nat option"
  stores :: "(string \<times> 'db StoreDetails) list"
  logged :: "logline list"
  closeCalls :: "'db list"
  world :: 'w
  timers :: "(nat \<times> int) list"
  timerCount :: nat

definition info :: "string \<Rightarrow> string list \<Rightarrow> ('db, 'w) engine \<Rightarrow> ('db, 'w) engine" where
  "info fmt args s = s\<lparr>logged := logged s @ [Info fmt args]\<rparr>"

definition error :: "string \<Rightarrow> string list \<Rightarrow> ('db, 'w) engine \<Rightarrow> ('db, 'w) engine" where
  "error fmt args s = s\<lparr>logged := logged s @ [Error fmt args]\<rparr>"

text \<open>The constructor, after the configuration has been read and parsed.\<close>

definition constructor :: "string \<Rightarrow> int \<Rightarrow> 'w \<Rightarrow> ('db, 'w) engine" where
  "constructor dir interval w =
     \<lparr>storageDir = dir, keepOpenInterval = interval, closeStorageTimer = None,
      stores = [], logged = [], closeCalls = [], world = w, timers = [], timerCount = 0\<rparr>"

subsection \<open>getStore\<close>

definition getStore ::
  "('db, 'w) level \<Rightarrow> int \<Rightarrow> string \<Rightarrow> ('db, 'w) engine \<Rightarrow> 'db StoreDetails \<times> ('db, 'w) engine" where
  "getStore L now n s =
     (case map_of (stores s) n of
        Some details \<Rightarrow>
          (let details' = details\<lparr>lastAccessed := now\<rparr>
           in (details', s\<lparr>stores := AList.update n details' (stores s)\<rparr>))
      | None \<Rightarrow>
          (let s1 = info ''Creating/Opening storage (%s)'' [n] s;
               (h, w) = levelup L (storageDir s1 @ ''/'' @ n) (world s1);
               details = \<lparr>lastAccessed = now, name = n, db = h\<rparr>
           in (details, s1\<lparr>world := w, stores := AList.update n details (stores s1)\<rparr>)))"

subsection \<open>get, write, del\<close>

text \<open>\<open>write\<close> is a keyword of Isabelle, so the method is called \<open>write_kv\<close> here.\<close>

definition get ::
  "('db, 'w) level \<Rightarrow> int \<Rightarrow> string \<Rightarrow> string \<Rightarrow> ('db, 'w) engine
    \<Rightarrow> (error + string option) \<times> ('db, 'w) engine" where
  "get L now n key s =
     (let (store, s1) = getStore L now n s;
          (p, w) = db_get L (db store) key (world s1);
          (p', s2) = catch p
            (\<lambda>e st. (None, error ''Error (%s) while attempting to get key (%s) from store (%s)'' [e, key, n] st))
            (s1\<lparr>world := w\<rparr>)
      in case await p' of
           Inl e \<Rightarrow> (Inl e, s2)
         | Inr val \<Rightarrow> (case val of None \<Rightarrow> (Inr None, s2) | Some v \<Rightarrow> (Inr (Some v), s2)))"

definition write_kv ::
  "('db, 'w) level \<Rightarrow> int \<Rightarrow> string \<Rightarrow> string \<Rightarrow> string \<Rightarrow> ('db, 'w) engine
    \<Rightarrow> (error + bool) \<times> ('db, 'w) engine" where
  "write_kv L now n key val s =
     (let (store, s1) = getStore L now n s;
          written = True;
          (p, w) = db_put L (db store) key val (world s1);
          (p', (written, s2)) = catch p
            (\<lambda>e (written, st).
               ((), (False, error ''Error (%s) while attempting to write key (%s) from store (%s)'' [e, key, n] st)))
            (written, s1\<lparr>world := w\<rparr>)
      in case await p' of
           Inl e \<Rightarrow> (Inl e, s2)
         | Inr _ \<Rightarrow> (Inr written, s2))"

definition del ::
  "('db, 'w) level \<Rightarrow> int \<Rightarrow> string \<Rightarrow> string \<Rightarrow> ('db, 'w) engine
    \<Rightarrow> (error + bool) \<times> ('db, 'w) engine" where
  "del L now n key s =
     (let (store, s1) = getStore L now n s;
          deleted = True;
          (p, w) = db_del L (db store) key (world s1);
          (p', (deleted, s2)) = catch p
            (\<lambda>e (deleted, st).
               ((), (False, error ''Error (%s) while attempting to delete key (%s) from store (%s)'' [e, key, n] st)))
            (deleted, s1\<lparr>world := w\<rparr>)
      in case await p' of
           Inl e \<Rightarrow> (Inl e, s2)
         | Inr _ \<Rightarrow> (Inr deleted, s2))"

subsection \<open>start, stop and the sweep\<close>

text \<open>
  \<open>setInterval\<close> and \<open>clearInterval\<close> belong to the Node runtime. \<open>setInterval\<close>
  starts a new timer and returns it; a delay below 1 or above 2147483647 is set to 1.
  \<open>clearInterval\<close> stops the timer it is given and does nothing for \<open>undefined\<close> or
  for a timer that is not running.
\<close>

definition setInterval :: "int \<Rightarrow> ('db, 'w) engine \<Rightarrow> nat \<times> ('db, 'w) engine" where
  "setInterval delay s =
     (let period = (if delay < 1 \<or> delay > 2147483647 then 1 else delay)
      in (timerCount s,
          s\<lparr>timers := timers s @ [(timerCount s, period)], timerCount := Suc (timerCount s)\<rparr>))"

definition clearInterval :: "nat option \<Rightarrow> ('db, 'w) engine \<Rightarrow> ('db, 'w) engine" where
  "clearInterval timer s =
     (case timer of
        None \<Rightarrow> s
      | Some t \<Rightarrow> s\<lparr>timers := filter (\<lambda>(i, period). i \<noteq> t) (timers s)\<rparr>)"

definition start :: "('db, 'w) engine \<Rightarrow> bool \<times> ('db, 'w) engine" where
  "start s =
     (if keepOpenInterval s \<noteq> 0
      then (let (t, s') = setInterval (keepOpenInterval s) s
            in (True, s'\<lparr>closeStorageTimer := Some t\<rparr>))
      else (True, s))"

text \<open>
  One \<open>await db.close()\<close>: the call is recorded, the world is the one the call leaves,
  and a rejection is thrown.
\<close>

definition close ::
  "('db, 'w) level \<Rightarrow> 'db \<Rightarrow> ('db, 'w) engine \<Rightarrow> (error + unit) \<times> ('db, 'w) engine" where
  "close L h s =
     (let (p, w) = db_close L h (world s)
      in (await p, s\<lparr>world := w, closeCalls := closeCalls s @ [h]\<rparr>))"

text \<open>The loop of \<open>stop\<close> over the entries of the map.\<close>

fun stop_loop ::
  "('db, 'w) level \<Rightarrow> (string \<times> 'db StoreDetails) list \<Rightarrow> ('db, 'w) engine
    \<Rightarrow> (error + unit) \<times> ('db, 'w) engine" where
  "stop_loop L [] s = (Inr (), s)"
| "stop_loop L ((k, v) # rest) s =
     (case close L (db v) (info ''Closing Storage (%s)'' [name v] s) of
        (Inl e, s') \<Rightarrow> (Inl e, s')
      | (Inr _, s') \<Rightarrow> stop_loop L rest s')"

definition stop :: "('db, 'w) level \<Rightarrow> ('db, 'w) engine \<Rightarrow> (error + unit) \<times> ('db, 'w) engine" where
  "stop L s = stop_loop L (stores s) (clearInterval (closeStorageTimer s) s)"

text \<open>The first loop of \<open>checkStorage\<close>: the stores idle for longer than the interval.\<close>

fun idle_stores :: "int \<Rightarrow> int \<Rightarrow> (string \<times> 'db StoreDetails) list \<Rightarrow> 'db StoreDetails list" where
  "idle_stores now interval [] = []"
| "idle_stores now interval ((k, v) # rest) =
     (if now - lastAccessed v > interval
      then v # idle_stores now interval rest
      else idle_stores now interval rest)"

text \<open>The second loop: close each selected store, then delete it from the map.\<close>

fun close_loop ::
  "('db, 'w) level \<Rightarrow> 'db StoreDetails list \<Rightarrow> ('db, 'w) engine
    \<Rightarrow> (error + unit) \<times> ('db, 'w) engine" where
  "close_loop L [] s = (Inr (), s)"
| "close_loop L (details # rest) s =
     (case close L (db details) (info ''Closing storage (%s)'' [name details] s) of
        (Inl e, s') \<Rightarrow> (Inl e, s')
      | (Inr _, s') \<Rightarrow> close_loop L rest (s'\<lparr>stores := AList.delete (name details) (stores s')\<rparr>))"

definition checkStorage ::
  "('db, 'w) level \<Rightarrow> int \<Rightarrow> ('db, 'w) engine \<Rightarrow> (error + unit) \<times> ('db, 'w) engine" where
  "checkStorage L now s =
     (let closed = idle_stores now (keepOpenInterval s) (stores s)
      in close_loop L closed s)"

subsection \<open>The read and delete routes\<close>

text \<open>
  \<open>id.split(":")\<close>: the pieces of the string between the separators, all of them.
  A string with no separator is a single piece.
\<close>

function split :: "char \<Rightarrow> string \<Rightarrow> string list" where
  "split c str =
     (case dropWhile (\<lambda>x. x \<noteq> c) str of
        [] \<Rightarrow> [str]
      | _ # rest \<Rightarrow> takeWhile (\<lambda>x. x \<noteq> c) str # split c rest)"
  by pat_completeness auto
termination
proof (relation "measure (\<lambda>(c, str). length str)")
  show "wf (measure (\<lambda>(c, str). length str))" by simp
next
  fix c :: char and str :: string and x21 x22
  assume "dropWhile (\<lambda>x. x \<noteq> c) str = x21 # x22"
  then have "length (x21 # x22) \<le> length str"
    by (metis length_dropWhile_le)
  then show "((c, x22), (c, str)) \<in> measure (\<lambda>(c, str). length str)" by simp
qed

text \<open>\<open>parts[i]\<close>: \<open>undefined\<close> is \<open>None\<close>.\<close>

fun index :: "'a list \<Rightarrow> nat \<Rightarrow> 'a option" where
  "index [] i = None"
| "index (x # xs) 0 = Some x"
| "index (x # xs) (Suc i) = index xs i"

text \<open>
  What a route handler throws: an \<open>HttpError\<close> with its status and message, or an
  error that came up from the engine.
\<close>

datatype thrown = HttpError nat string | Exception error

text \<open>
  The handlers that \<open>setupReadRoute\<close> and \<open>setupDeleteRoute\<close> register. The
  identifier is \<open>None\<close> when it is \<open>undefined\<close>.
\<close>

definition readRoute ::
  "('db, 'w) level \<Rightarrow> int \<Rightarrow> string option \<Rightarrow> ('db, 'w) engine
    \<Rightarrow> (thrown + string) \<times> ('db, 'w) engine" where
  "readRoute L now ident s =
     (case ident of
        None \<Rightarrow> (Inl (HttpError 404 ''No ID specified!''), s)
      | Some i \<Rightarrow>
          (let parts = split CHR '':'' i
           in case (index parts 0, index parts 1) of
                (Some p0, Some p1) \<Rightarrow>
                  (case get L now p0 p1 s of
                     (Inl e, s') \<Rightarrow> (Inl (Exception e), s')
                   | (Inr None, s') \<Rightarrow> (Inl (HttpError 404 ''Ooops - can't find that key!''), s')
                   | (Inr (Some v), s') \<Rightarrow> (Inr v, s'))
              | _ \<Rightarrow> (Inl (HttpError 404 ''Invalid ID!''), s)))"

definition deleteRoute ::
  "('db, 'w) level \<Rightarrow> int \<Rightarrow> string option \<Rightarrow> ('db, 'w) engine
    \<Rightarrow> (thrown + unit) \<times> ('db, 'w) engine" where
  "deleteRoute L now ident s =
     (case ident of
        None \<Rightarrow> (Inl (HttpError 404 ''Invalid ID!''), s)
      | Some i \<Rightarrow>
          (let parts = split CHR '':'' i
           in case (index parts 0, index parts 1) of
                (Some p0, Some p1) \<Rightarrow>
                  (case del L now p0 p1 s of
                     (Inl e, s') \<Rightarrow> (Inl (Exception e), s')
                   | (Inr False, s') \<Rightarrow> (Inl (HttpError 500 ''Ooops - we have had a problem''), s')
                   | (Inr True, s') \<Rightarrow> (Inr (), s'))
              | _ \<Rightarrow> (Inl (HttpError 404 ''Invalid ID''), s)))"

subsection \<open>Runs of the engine\<close>

text \<open>
  What can happen to a running engine, one event at a time: a call of a public method
  or of a route handler with the clock reading at that moment, or an interval timer
  firing. Every timer of the engine has the callback \<open>() => this.checkStorage()\<close>, and
  the runtime calls it only for a timer that is running. An error thrown by a handler
  leaves the state as it was at the throw.
\<close>

datatype event =
    Start
  | Stop
  | TimerFires nat int
  | Get int string string
  | Write int string string string
  | Del int string string
  | ReadRoute int "string option"
  | DeleteRoute int "string option"

fun step :: "('db, 'w) level \<Rightarrow> event \<Rightarrow> ('db, 'w) engine \<Rightarrow> ('db, 'w) engine" where
  "step L Start s = snd (start s)"
| "step L Stop s = snd (stop L s)"
| "step L (TimerFires t now) s =
     (if t \<in> set (map fst (timers s)) then snd (checkStorage L now s) else s)"
| "step L (Get now n key) s = snd (get L now n key s)"
| "step L (Write now n key val) s = snd (write_kv L now n key val s)"
| "step L (Del now n key) s = snd (del L now n key s)"
| "step L (ReadRoute now ident) s = snd (readRoute L now ident s)"
| "step L (DeleteRoute now ident) s = snd (deleteRoute L now ident s)"

fun run :: "('db, 'w) level \<Rightarrow> event list \<Rightarrow> ('db, 'w) engine \<Rightarrow> ('db, 'w) engine" where
  "run L [] s = s"
| "run L (ev # evs) s = run L evs (step L ev s)"

section \<open>A persistence layer in memory\<close>

text \<open>
  Modelled from the spec: the persistence layer, an external library (\<open>levelup\<close> over
  \<open>leveldown\<close>) whose code is not part of the repository. The spec describes it as an
  opaque store with the primitives get, put, delete and close, one namespace per store
  name at \<open>storageRoot/name\<close>, where an absent key is a defined outcome of get and
  delete is idempotent. A handle is a number and the location it was opened at. A call
  on a handle fails when the handle has been closed or when the location is unavailable
  (an I/O fault); \<open>get\<close> of an absent key resolves with \<open>undefined\<close>, and \<open>del\<close> of
  an absent key resolves like any other. \<open>close\<close> fails when the location is
  unavailable and leaves the handle as it was.
\<close>

type_synonym handle = "nat \<times> string"

record disk =
  files :: "string \<Rightarrow> string \<Rightarrow> string option"
  opened :: "nat set"
  next_handle :: nat
  unavailable :: "string set"

definition usable :: "handle \<Rightarrow> disk \<Rightarrow> bool" where
  "usable h w \<longleftrightarrow> fst h \<in> opened w \<and> snd h \<notin> unavailable w"

definition mem_open :: "string \<Rightarrow> disk \<Rightarrow> handle \<times> disk" where
  "mem_open loc w =
     ((next_handle w, loc),
      w\<lparr>opened := insert (next_handle w) (opened w), next_handle := Suc (next_handle w)\<rparr>)"

definition mem_get :: "handle \<Rightarrow> string \<Rightarrow> disk \<Rightarrow> string option promise \<times> disk" where
  "mem_get h key w =
     (if usable h w then (Resolved (files w (snd h) key), w)
      else (Rejected ''IO error'', w))"

definition mem_put :: "handle \<Rightarrow> string \<Rightarrow> string \<Rightarrow> disk \<Rightarrow> unit promise \<times> disk" where
  "mem_put h key val w =
     (if usable h w
      then (Resolved (), w\<lparr>files := (files w)(snd h := (files w (snd h))(key \<mapsto> val))\<rparr>)
      else (Rejected ''IO error'', w))"

definition mem_del :: "handle \<Rightarrow> string \<Rightarrow> disk \<Rightarrow> unit promise \<times> disk" where
  "mem_del h key w =
     (if usable h w
      then (Resolved (), w\<lparr>files := (files w)(snd h := (files w (snd h))(key := None))\<rparr>)
      else (Rejected ''IO error'', w))"

definition mem_close :: "handle \<Rightarrow> disk \<Rightarrow> unit promise \<times> disk" where
  "mem_close h w =
     (if snd h \<in> unavailable w then (Rejected ''IO error'', w)
      else (Resolved (), w\<lparr>opened := opened w - {fst h}\<rparr>))"

definition mem :: "(handle, disk) level" where
  "mem = \<lparr>levelup = mem_open, db_get = mem_get, db_put = mem_put, db_del = mem_del,
          db_close = mem_close\<rparr>"

section \<open>Registry invariants\<close>

text \<open>
  What the map of stores satisfies by construction: as a \<open>Map\<close> it has no key twice,
  and \<open>getStore\<close> files every record under its own name.
\<close>

definition registry_ok :: "('db, 'w) engine \<Rightarrow> bool" where
  "registry_ok s \<longleftrightarrow>
     distinct (map fst (stores s)) \<and> list_all (\<lambda>(k, v). name v = k) (stores s)"

text \<open>
  For the layer in memory: every record holds a handle that has been handed out, opened
  at the location of its store.
\<close>

definition handles_ok :: "(handle, disk) engine \<Rightarrow> bool" where
  "handles_ok s \<longleftrightarrow>
     list_all (\<lambda>(k, v). fst (db v) < next_handle (world s)
                      \<and> snd (db v) = storageDir s @ ''/'' @ k) (stores s)"

text \<open>Whether the sweep at \<open>now\<close> selects a record.\<close>

definition idle :: "int \<Rightarrow> int \<Rightarrow> 'db StoreDetails \<Rightarrow> bool" where
  "idle now interval v \<longleftrightarrow> now - lastAccessed v > interval"

text \<open>
  A later state in which nothing has been closed and no name has left the map.
\<close>

definition grows :: "('db, 'w) engine \<Rightarrow> ('db, 'w) engine \<Rightarrow> bool" where
  "grows s s' \<longleftrightarrow>
     closeCalls s' = closeCalls s \<and> keepOpenInterval s' = keepOpenInterval s \<and>
     set (map fst (stores s)) \<subseteq> set (map fst (stores s'))"

section \<open>Example states\<close>

text \<open>
  An engine under \<open>/data\<close> with a keep-open interval of one second, started, with two
  open stores: \<open>s1\<close> last used at time 0 and holding the keys \<open>a\<close> and \<open>a:b\<close>,
  \<open>s2\<close> last used at time 500 and empty.
\<close>

definition example_disk :: disk where
  "example_disk =
     \<lparr>files = (\<lambda>loc. if loc = ''/data/s1'' then [''a'' \<mapsto> ''1'', ''a:b'' \<mapsto> ''2''] else Map.empty),
      opened = {0, 1}, next_handle = 2, unavailable = {}\<rparr>"

definition example_engine :: "(handle, disk) engine" where
  "example_engine =
     \<lparr>storageDir = ''/data'', keepOpenInterval = 1000, closeStorageTimer = Some 0,
      stores = [(''s1'', \<lparr>lastAccessed = 0, name = ''s1'', db = (0, ''/data/s1'')\<rparr>),
                (''s2'', \<lparr>lastAccessed = 500, name = ''s2'', db = (1, ''/data/s2'')\<rparr>)],
      logged = [], closeCalls = [], world = example_disk,
      timers = [(0, 1000)], timerCount = 1\<rparr>"

text \<open>The same engine before \<open>start\<close>.\<close>

definition unstarted_engine :: "(handle, disk) engine" where
  "unstarted_engine = example_engine\<lparr>closeStorageTimer := None, timers := [], timerCount := 0\<rparr>"

text \<open>The same engine when the location of \<open>s1\<close> has become unavailable.\<close>

definition faulty_engine :: "(handle, disk) engine" where
  "faulty_engine = example_engine\<lparr>world := example_disk\<lparr>unavailable := {''/data/s1''}\<rparr>\<rparr>"

text \<open>An engine just constructed, with the sweep disabled, over an empty disk.\<close>

definition empty_disk :: disk where
  "empty_disk = \<lparr>files = (\<lambda>loc. Map.empty), opened = {}, next_handle = 0, unavailable = {}\<rparr>"

definition new_engine :: "(handle, disk) engine" where
  "new_engine = constructor ''/data'' 0 empty_disk"

text \<open>An engine just constructed from a keep-open interval of \<open>-1\<close> second.\<close>

definition negative_engine :: "(handle, disk) engine" where
  "negative_engine = constructor ''/data'' (- 1000) empty_disk"

section \<open>Evaluation\<close>

lemmas mem_defs = mem_def mem_open_def mem_get_def mem_put_def mem_del_def mem_close_def usable_def
lemmas example_defs = example_engine_def example_disk_def faulty_engine_def empty_disk_def
  new_engine_def unstarted_engine_def negative_engine_def constructor_def

section \<open>What the operations do to the state\<close>

lemma getStore_fst:
  "fst (getStore L now n s) =
     (case map_of (stores s) n of
        Some d \<Rightarrow> d\<lparr>lastAccessed := now\<rparr>
      | None \<Rightarrow> \<lparr>lastAccessed = now, name = n,
                  db = fst (levelup L (storageDir s @ ''/'' @ n) (world s))\<rparr>)"
  by (simp add: getStore_def info_def Let_def split_def split: option.splits)

lemma getStore_stores:
  "stores (snd (getStore L now n s)) = AList.update n (fst (getStore L now n s)) (stores s)"
  by (simp add: getStore_def info_def Let_def split_def split: option.splits)

lemma getStore_world:
  "world (snd (getStore L now n s)) =
     (case map_of (stores s) n of
        Some d \<Rightarrow> world s
      | None \<Rightarrow> snd (levelup L (storageDir s @ ''/'' @ n) (world s)))"
  by (simp add: getStore_def info_def Let_def split_def split: option.splits)

lemma getStore_logged:
  "logged (snd (getStore L now n s)) =
     (case map_of (stores s) n of
        Some d \<Rightarrow> logged s
      | None \<Rightarrow> logged s @ [Info ''Creating/Opening storage (%s)'' [n]])"
  by (simp add: getStore_def info_def Let_def split_def split: option.splits)

lemma getStore_rest:
  "closeCalls (snd (getStore L now n s)) = closeCalls s"
  "storageDir (snd (getStore L now n s)) = storageDir s"
  "keepOpenInterval (snd (getStore L now n s)) = keepOpenInterval s"
  "closeStorageTimer (snd (getStore L now n s)) = closeStorageTimer s"
  "timers (snd (getStore L now n s)) = timers s"
  "timerCount (snd (getStore L now n s)) = timerCount s"
  by (simp_all add: getStore_def info_def Let_def split_def split: option.splits)

lemma get_fst:
  "fst (get L now n key s) =
     (case fst (db_get L (db (fst (getStore L now n s))) key (world (snd (getStore L now n s)))) of
        Resolved v \<Rightarrow> Inr v
      | Rejected e \<Rightarrow> Inr None)"
  by (simp add: get_def Let_def split_def split: promise.splits option.splits)

lemma get_snd:
  "snd (get L now n key s) =
     (let s1 = snd (getStore L now n s);
          r = db_get L (db (fst (getStore L now n s))) key (world s1);
          s2 = s1\<lparr>world := snd r\<rparr>
      in case fst r of
           Resolved v \<Rightarrow> s2
         | Rejected e \<Rightarrow> error ''Error (%s) while attempting to get key (%s) from store (%s)'' [e, key, n] s2)"
  by (simp add: get_def Let_def split_def split: promise.splits option.splits)

lemma write_fst:
  "fst (write_kv L now n key val s) =
     (case fst (db_put L (db (fst (getStore L now n s))) key val (world (snd (getStore L now n s)))) of
        Resolved v \<Rightarrow> Inr True
      | Rejected e \<Rightarrow> Inr False)"
  by (simp add: write_kv_def Let_def split_def split: promise.splits option.splits)

lemma write_snd:
  "snd (write_kv L now n key val s) =
     (let s1 = snd (getStore L now n s);
          r = db_put L (db (fst (getStore L now n s))) key val (world s1);
          s2 = s1\<lparr>world := snd r\<rparr>
      in case fst r of
           Resolved v \<Rightarrow> s2
         | Rejected e \<Rightarrow> error ''Error (%s) while attempting to write key (%s) from store (%s)'' [e, key, n] s2)"
  by (simp add: write_kv_def Let_def split_def split: promise.splits option.splits)

lemma del_fst:
  "fst (del L now n key s) =
     (case fst (db_del L (db (fst (getStore L now n s))) key (world (snd (getStore L now n s)))) of
        Resolved v \<Rightarrow> Inr True
      | Rejected e \<Rightarrow> Inr False)"
  by (simp add: del_def Let_def split_def split: promise.splits option.splits)

lemma del_snd:
  "snd (del L now n key s) =
     (let s1 = snd (getStore L now n s);
          r = db_del L (db (fst (getStore L now n s))) key (world s1);
          s2 = s1\<lparr>world := snd r\<rparr>
      in case fst r of
           Resolved v \<Rightarrow> s2
         | Rejected e \<Rightarrow> error ''Error (%s) while attempting to delete key (%s) from store (%s)'' [e, key, n] s2)"
  by (simp add: del_def Let_def split_def split: promise.splits option.splits)

text \<open>The three operations leave the map as \<open>getStore\<close> left it and close nothing.\<close>

lemma crud_stores:
  "stores (snd (get L now n key s)) = stores (snd (getStore L now n s))"
  "stores (snd (write_kv L now n key val s)) = stores (snd (getStore L now n s))"
  "stores (snd (del L now n key s)) = stores (snd (getStore L now n s))"
  by (simp_all add: get_snd write_snd del_snd error_def Let_def split: promise.splits)

lemma crud_closeCalls:
  "closeCalls (snd (get L now n key s)) = closeCalls s"
  "closeCalls (snd (write_kv L now n key val s)) = closeCalls s"
  "closeCalls (snd (del L now n key s)) = closeCalls s"
  by (simp_all add: get_snd write_snd del_snd error_def Let_def getStore_rest split: promise.splits)

lemma crud_config:
  "keepOpenInterval (snd (get L now n key s)) = keepOpenInterval s"
  "keepOpenInterval (snd (write_kv L now n key val s)) = keepOpenInterval s"
  "keepOpenInterval (snd (del L now n key s)) = keepOpenInterval s"
  "closeStorageTimer (snd (get L now n key s)) = closeStorageTimer s"
  "closeStorageTimer (snd (write_kv L now n key val s)) = closeStorageTimer s"
  "closeStorageTimer (snd (del L now n key s)) = closeStorageTimer s"
  "timers (snd (get L now n key s)) = timers s"
  "timers (snd (write_kv L now n key val s)) = timers s"
  "timers (snd (del L now n key s)) = timers s"
  "storageDir (snd (get L now n key s)) = storageDir s"
  "storageDir (snd (write_kv L now n key val s)) = storageDir s"
  "storageDir (snd (del L now n key s)) = storageDir s"
  by (simp_all add: get_snd write_snd del_snd error_def Let_def getStore_rest split: promise.splits)

text \<open>The frame of \<open>getStore\<close>: other names, the handle of an existing record, the keys.\<close>

lemma getStore_other:
  "m \<noteq> n \<Longrightarrow> map_of (stores (snd (getStore L now n s))) m = map_of (stores s) m"
  by (simp add: getStore_stores update_conv')

lemma getStore_this:
  "map_of (stores (snd (getStore L now n s))) n = Some (fst (getStore L now n s))"
  by (simp add: getStore_stores update_conv')

lemma getStore_keys:
  "map fst (stores (snd (getStore L now n s))) =
     (if n \<in> set (map fst (stores s)) then map fst (stores s) else map fst (stores s) @ [n])"
  by (simp add: getStore_stores update_keys)

lemma getStore_handle_kept:
  "map_of (stores s) n = Some d \<Longrightarrow>
     db (fst (getStore L now n s)) = db d \<and> name (fst (getStore L now n s)) = name d"
  by (simp add: getStore_fst)

section \<open>Resolving a store\<close>

text \<open>
  Claim C5. For every name, when \<open>getStore\<close> returns, the record it returns is the one
  filed under that name in the map and its \<open>lastAccessed\<close> is the time of this call.
  A record that was there is reused: same handle, same name, and the persistence layer
  is not touched. A missing record is created around a handle opened at
  \<open>storageDir/name\<close>. \<open>getStore\<close> has no error result.
\<close>

theorem getStore_present_C5:
  "case getStore L now n s of (d, s') \<Rightarrow>
     map_of (stores s') n = Some d \<and> lastAccessed d = now \<and>
     (case map_of (stores s) n of
        Some old \<Rightarrow> db d = db old \<and> name d = name old \<and> world s' = world s
      | None \<Rightarrow> name d = n \<and> (db d, world s') = levelup L (storageDir s @ ''/'' @ n) (world s))"
proof -
  obtain d s' where eq: "getStore L now n s = (d, s')" by (cases "getStore L now n s")
  then have d: "d = fst (getStore L now n s)" and s': "s' = snd (getStore L now n s)" by simp_all
  have "map_of (stores s') n = Some d" unfolding d s' by (rule getStore_this)
  moreover have "lastAccessed d = now" unfolding d by (simp add: getStore_fst split: option.splits)
  moreover have "case map_of (stores s) n of
        Some old \<Rightarrow> db d = db old \<and> name d = name old \<and> world s' = world s
      | None \<Rightarrow> name d = n \<and> (db d, world s') = levelup L (storageDir s @ ''/'' @ n) (world s)"
    unfolding d s' by (simp add: getStore_fst getStore_world split: option.splits)
  ultimately show ?thesis by (simp add: eq)
qed

theorem getStore_present_C5_witness:
  "map_of (stores (snd (getStore mem 700 ''s1'' example_engine))) ''s1''
     = Some \<lparr>lastAccessed = 700, name = ''s1'', db = (0, ''/data/s1'')\<rparr>
   \<and> map_of (stores (snd (getStore mem 700 ''s3'' example_engine))) ''s3''
     = Some \<lparr>lastAccessed = 700, name = ''s3'', db = (2, ''/data/s3'')\<rparr>"
  using getStore_present_C5 [where L = mem and now = 700 and n = "''s1''" and s = example_engine]
        getStore_present_C5 [where L = mem and now = 700 and n = "''s3''" and s = example_engine]
  by (simp add: getStore_def info_def Let_def mem_defs example_defs)

section \<open>Reading\<close>

text \<open>
  Claim C6. \<open>get\<close> never throws. When \<open>db.get\<close> resolves with a value, \<open>get\<close>
  returns that value; when it resolves with \<open>undefined\<close>, \<open>get\<close> returns \<open>null\<close>
  and logs nothing; when it rejects, \<open>get\<close> logs the error with the key and the name of
  the store and returns \<open>null\<close> as well.
\<close>

theorem get_never_throws_C6:
  "case getStore L now n s of (store, s1) \<Rightarrow>
   case db_get L (db store) key (world s1) of (p, w) \<Rightarrow>
   case get L now n key s of (r, s') \<Rightarrow>
     (\<forall>e. r \<noteq> Inl e) \<and>
     (case p of
        Resolved (Some v) \<Rightarrow> r = Inr (Some v) \<and> logged s' = logged s1
      | Resolved None \<Rightarrow> r = Inr None \<and> logged s' = logged s1
      | Rejected e \<Rightarrow>
          r = Inr None \<and>
          logged s' = logged s1 @
            [Error ''Error (%s) while attempting to get key (%s) from store (%s)'' [e, key, n]])"
  by (simp add: get_def error_def Let_def split_def split: promise.splits option.splits)

theorem get_never_throws_C6_witness:
  "fst (get mem 700 ''s1'' ''a'' example_engine) = Inr (Some ''1'')
   \<and> fst (get mem 700 ''s1'' ''nope'' example_engine) = Inr None
   \<and> fst (get mem 700 ''s1'' ''a'' faulty_engine) = Inr None
   \<and> logged (snd (get mem 700 ''s1'' ''a'' faulty_engine))
       = [Error ''Error (%s) while attempting to get key (%s) from store (%s)'' [''IO error'', ''a'', ''s1'']]"
  using get_never_throws_C6 [where L = mem and now = 700 and n = "''s1''" and s = example_engine and key = "''a''"]
        get_never_throws_C6 [where L = mem and now = 700 and n = "''s1''" and s = example_engine and key = "''nope''"]
        get_never_throws_C6 [where L = mem and now = 700 and n = "''s1''" and s = faulty_engine and key = "''a''"]
  by (simp add: getStore_def info_def Let_def mem_defs example_defs split: prod.splits)

section \<open>Writing and deleting\<close>

text \<open>
  Claim C7. \<open>write\<close> and \<open>del\<close> never throw and return \<open>true\<close> exactly when
  \<open>db.put\<close> and \<open>db.del\<close> resolve; on a rejection they log one error line and return
  \<open>false\<close>. The world they leave is the one left by that single call, so nothing is
  retried. On the layer in memory, deleting a key that is absent from a usable store
  returns \<open>true\<close>.
\<close>

theorem write_del_result_C7:
  "(case getStore L now n s of (store, s1) \<Rightarrow>
    case db_put L (db store) key val (world s1) of (p, w) \<Rightarrow>
    case write_kv L now n key val s of (r, s') \<Rightarrow>
      world s' = w \<and>
      (case p of
         Resolved u \<Rightarrow> r = Inr True \<and> logged s' = logged s1
       | Rejected e \<Rightarrow>
           r = Inr False \<and>
           logged s' = logged s1 @
             [Error ''Error (%s) while attempting to write key (%s) from store (%s)'' [e, key, n]]))
   \<and>
   (case getStore L now n s of (store, s1) \<Rightarrow>
    case db_del L (db store) key (world s1) of (p, w) \<Rightarrow>
    case del L now n key s of (r, s') \<Rightarrow>
      world s' = w \<and>
      (case p of
         Resolved u \<Rightarrow> r = Inr True \<and> logged s' = logged s1
       | Rejected e \<Rightarrow>
           r = Inr False \<and>
           logged s' = logged s1 @
             [Error ''Error (%s) while attempting to delete key (%s) from store (%s)'' [e, key, n]]))
   \<and>
   (case getStore mem now n t of (store, t1) \<Rightarrow>
      usable (db store) (world t1) \<and> files (world t1) (snd (db store)) key = None
        \<longrightarrow> fst (del mem now n key t) = Inr True)"
proof (intro conjI)
  show "case getStore L now n s of (store, s1) \<Rightarrow>
    case db_put L (db store) key val (world s1) of (p, w) \<Rightarrow>
    case write_kv L now n key val s of (r, s') \<Rightarrow>
      world s' = w \<and>
      (case p of
         Resolved u \<Rightarrow> r = Inr True \<and> logged s' = logged s1
       | Rejected e \<Rightarrow>
           r = Inr False \<and>
           logged s' = logged s1 @
             [Error ''Error (%s) while attempting to write key (%s) from store (%s)'' [e, key, n]])"
    by (simp add: write_kv_def error_def Let_def split_def split: promise.splits)
  show "case getStore L now n s of (store, s1) \<Rightarrow>
    case db_del L (db store) key (world s1) of (p, w) \<Rightarrow>
    case del L now n key s of (r, s') \<Rightarrow>
      world s' = w \<and>
      (case p of
         Resolved u \<Rightarrow> r = Inr True \<and> logged s' = logged s1
       | Rejected e \<Rightarrow>
           r = Inr False \<and>
           logged s' = logged s1 @
             [Error ''Error (%s) while attempting to delete key (%s) from store (%s)'' [e, key, n]])"
    by (simp add: del_def error_def Let_def split_def split: promise.splits)
  show "case getStore mem now n t of (store, t1) \<Rightarrow>
      usable (db store) (world t1) \<and> files (world t1) (snd (db store)) key = None
        \<longrightarrow> fst (del mem now n key t) = Inr True"
    by (simp add: del_fst split_def mem_def mem_del_def)
qed

theorem write_del_result_C7_witness:
  "fst (write_kv mem 700 ''s2'' ''k'' ''v'' example_engine) = Inr True
   \<and> fst (write_kv mem 700 ''s1'' ''k'' ''v'' faulty_engine) = Inr False
   \<and> files (world example_engine) ''/data/s2'' ''never-existed'' = None
   \<and> fst (del mem 700 ''s2'' ''never-existed'' example_engine) = Inr True
   \<and> fst (del mem 700 ''s1'' ''a'' faulty_engine) = Inr False"
  using write_del_result_C7 [where L = mem and now = 700 and n = "''s2''" and s = example_engine
          and key = "''never-existed''" and val = "''v''" and t = example_engine]
        write_del_result_C7 [where L = mem and now = 700 and n = "''s1''" and s = faulty_engine
          and key = "''a''" and val = "''v''" and t = faulty_engine]
  by (simp add: getStore_def info_def Let_def mem_defs example_defs write_fst del_fst)

section \<open>The frame of the operations\<close>

declare split.simps [simp del]

lemma readRoute_snd:
  "snd (readRoute L now ident s) = s
   \<or> (\<exists>p0 p1. snd (readRoute L now ident s) = snd (get L now p0 p1 s))"
proof (cases ident)
  case None
  then show ?thesis by (simp add: readRoute_def)
next
  case (Some i)
  show ?thesis
  proof (cases "index (split CHR '':'' i) 0")
    case None
    with Some show ?thesis by (simp add: readRoute_def)
  next
    case p0: (Some p0)
    show ?thesis
    proof (cases "index (split CHR '':'' i) 1")
      case None
      with Some p0 show ?thesis by (simp add: readRoute_def)
    next
      case p1: (Some p1)
      have "snd (readRoute L now ident s) = snd (get L now p0 p1 s)"
        using Some p0 p1
        by (simp add: readRoute_def split: prod.splits sum.splits option.splits)
      then show ?thesis by blast
    qed
  qed
qed

lemma deleteRoute_snd:
  "snd (deleteRoute L now ident s) = s
   \<or> (\<exists>p0 p1. snd (deleteRoute L now ident s) = snd (del L now p0 p1 s))"
proof (cases ident)
  case None
  then show ?thesis by (simp add: deleteRoute_def)
next
  case (Some i)
  show ?thesis
  proof (cases "index (split CHR '':'' i) 0")
    case None
    with Some show ?thesis by (simp add: deleteRoute_def)
  next
    case p0: (Some p0)
    show ?thesis
    proof (cases "index (split CHR '':'' i) 1")
      case None
      with Some p0 show ?thesis by (simp add: deleteRoute_def)
    next
      case p1: (Some p1)
      have "snd (deleteRoute L now ident s) = snd (del L now p0 p1 s)"
        using Some p0 p1
        by (simp add: deleteRoute_def split: prod.splits sum.splits bool.splits)
      then show ?thesis by blast
    qed
  qed
qed

text \<open>Apart from \<open>Stop\<close> and the timer, an event closes nothing and removes no name.\<close>

lemma grows_crud:
  "grows s (snd (get L now n key s))"
  "grows s (snd (write_kv L now n key val s))"
  "grows s (snd (del L now n key s))"
  by (auto simp add: grows_def crud_closeCalls crud_config crud_stores getStore_keys simp del: set_map)

lemma grows_refl: "grows s s"
  by (simp add: grows_def)

lemma grows_step:
  assumes "case ev of Stop \<Rightarrow> False | TimerFires t now \<Rightarrow> False | _ \<Rightarrow> True"
  shows "grows s (step L ev s)"
proof (cases ev)
  case Start
  then show ?thesis by (simp add: start_def setInterval_def grows_def Let_def)
next
  case (ReadRoute now ident)
  from readRoute_snd [of L now ident s]
  have "grows s (snd (readRoute L now ident s))"
  proof
    assume "snd (readRoute L now ident s) = s"
    then show ?thesis by (simp add: grows_refl)
  next
    assume "\<exists>p0 p1. snd (readRoute L now ident s) = snd (get L now p0 p1 s)"
    then obtain p0 p1 where "snd (readRoute L now ident s) = snd (get L now p0 p1 s)" by blast
    then show ?thesis by (simp add: grows_crud)
  qed
  with ReadRoute show ?thesis by simp
next
  case (DeleteRoute now ident)
  from deleteRoute_snd [of L now ident s]
  have "grows s (snd (deleteRoute L now ident s))"
  proof
    assume "snd (deleteRoute L now ident s) = s"
    then show ?thesis by (simp add: grows_refl)
  next
    assume "\<exists>p0 p1. snd (deleteRoute L now ident s) = snd (del L now p0 p1 s)"
    then obtain p0 p1 where "snd (deleteRoute L now ident s) = snd (del L now p0 p1 s)" by blast
    then show ?thesis by (simp add: grows_crud)
  qed
  with DeleteRoute show ?thesis by simp
qed (use assms in \<open>simp_all add: grows_crud\<close>)

text \<open>
  Claim C10. \<open>get\<close>, \<open>write\<close> and \<open>del\<close> on the store \<open>n\<close> invoke no
  \<open>close()\<close>, keep every key of the map in its place (adding \<open>n\<close> at the end when it
  was missing), leave the record of every other name as it was, and keep the handle and
  the name of an existing record of \<open>n\<close>. Of all events only \<open>Stop\<close> and the firing
  timer can invoke \<open>close()\<close> or take a name out of the map.
\<close>

theorem crud_frame_C10:
  "(s' = snd (get L now n key s) \<or> s' = snd (write_kv L now n key val s)
      \<or> s' = snd (del L now n key s) \<longrightarrow>
      closeCalls s' = closeCalls s \<and>
      map fst (stores s') =
        (if n \<in> set (map fst (stores s)) then map fst (stores s) else map fst (stores s) @ [n]) \<and>
      (\<forall>m. m \<noteq> n \<longrightarrow> map_of (stores s') m = map_of (stores s) m) \<and>
      (\<forall>d. map_of (stores s) n = Some d \<longrightarrow>
           (\<exists>d'. map_of (stores s') n = Some d' \<and> db d' = db d \<and> name d' = name d)))
   \<and>
   ((case ev of Stop \<Rightarrow> False | TimerFires t now \<Rightarrow> False | _ \<Rightarrow> True) \<longrightarrow>
      closeCalls (step L ev s) = closeCalls s \<and>
      set (map fst (stores s)) \<subseteq> set (map fst (stores (step L ev s))))"
proof (intro conjI impI)
  assume "s' = snd (get L now n key s) \<or> s' = snd (write_kv L now n key val s)
      \<or> s' = snd (del L now n key s)"
  then have st: "stores s' = stores (snd (getStore L now n s))"
    and cc: "closeCalls s' = closeCalls s"
    by (auto simp: crud_stores crud_closeCalls)
  show "closeCalls s' = closeCalls s" by (rule cc)
  show "map fst (stores s') =
        (if n \<in> set (map fst (stores s)) then map fst (stores s) else map fst (stores s) @ [n])"
    unfolding st by (rule getStore_keys)
  show "\<forall>m. m \<noteq> n \<longrightarrow> map_of (stores s') m = map_of (stores s) m"
    unfolding st by (simp add: getStore_other)
  show "\<forall>d. map_of (stores s) n = Some d \<longrightarrow>
           (\<exists>d'. map_of (stores s') n = Some d' \<and> db d' = db d \<and> name d' = name d)"
    unfolding st by (simp add: getStore_this getStore_handle_kept)
next
  assume ev: "case ev of Stop \<Rightarrow> False | TimerFires t now \<Rightarrow> False | _ \<Rightarrow> True"
  from grows_step [OF ev, of s L]
  show "closeCalls (step L ev s) = closeCalls s"
    and "set (map fst (stores s)) \<subseteq> set (map fst (stores (step L ev s)))"
    by (simp_all add: grows_def)
qed

theorem crud_frame_C10_witness:
  "closeCalls (snd (get mem 700 ''s1'' ''a'' example_engine)) = []
   \<and> map fst (stores (snd (write_kv mem 700 ''s3'' ''k'' ''v'' example_engine))) = [''s1'', ''s2'', ''s3'']
   \<and> map_of (stores (snd (del mem 700 ''s1'' ''a'' example_engine))) ''s2''
       = Some \<lparr>lastAccessed = 500, name = ''s2'', db = (1, ''/data/s2'')\<rparr>
   \<and> map_of (stores (snd (del mem 700 ''s1'' ''a'' example_engine))) ''s1''
       = Some \<lparr>lastAccessed = 700, name = ''s1'', db = (0, ''/data/s1'')\<rparr>
   \<and> closeCalls (step mem (ReadRoute 700 (Some ''s1:a'')) example_engine) = []"
  using crud_frame_C10 [where L = mem and now = 700 and n = "''s1''" and key = "''a''"
          and s = example_engine and s' = "snd (get mem 700 ''s1'' ''a'' example_engine)"
          and ev = "ReadRoute 700 (Some ''s1:a'')"]
        crud_frame_C10 [where L = mem and now = 700 and n = "''s3''" and key = "''k''"
          and val = "''v''" and s = example_engine
          and s' = "snd (write_kv mem 700 ''s3'' ''k'' ''v'' example_engine)" and ev = Start]
        crud_frame_C10 [where L = mem and now = 700 and n = "''s1''" and key = "''a''"
          and s = example_engine and s' = "snd (del mem 700 ''s1'' ''a'' example_engine)"
          and ev = Start]
  by (simp add: example_defs del_snd getStore_def Let_def mem_defs)

section \<open>Closing stores\<close>

lemma close_fst: "fst (close L h s) = await (fst (db_close L h (world s)))"
  by (simp add: close_def split_def Let_def)

lemma close_snd:
  "snd (close L h s) = s\<lparr>world := snd (db_close L h (world s)), closeCalls := closeCalls s @ [h]\<rparr>"
  by (simp add: close_def split_def Let_def)

lemma stop_loop_Cons:
  "stop_loop L ((k, v) # rest) s =
     (case fst (close L (db v) (info ''Closing Storage (%s)'' [name v] s)) of
        Inl e \<Rightarrow> (Inl e, snd (close L (db v) (info ''Closing Storage (%s)'' [name v] s)))
      | Inr u \<Rightarrow> stop_loop L rest (snd (close L (db v) (info ''Closing Storage (%s)'' [name v] s))))"
  by (simp split: prod.splits sum.splits)

lemma close_loop_Cons:
  "close_loop L (d # rest) s =
     (case fst (close L (db d) (info ''Closing storage (%s)'' [name d] s)) of
        Inl e \<Rightarrow> (Inl e, snd (close L (db d) (info ''Closing storage (%s)'' [name d] s)))
      | Inr u \<Rightarrow>
          close_loop L rest
            ((snd (close L (db d) (info ''Closing storage (%s)'' [name d] s)))
               \<lparr>stores := AList.delete (name d)
                  (stores (snd (close L (db d) (info ''Closing storage (%s)'' [name d] s))))\<rparr>))"
  by (simp split: prod.splits sum.splits)

declare stop_loop.simps(2) [simp del] close_loop.simps(2) [simp del]

lemma stop_loop_stores: "stores (snd (stop_loop L xs s)) = stores s"
  by (induction xs arbitrary: s)
     (auto simp: stop_loop_Cons close_snd info_def split: sum.splits)

lemma stop_loop_timers:
  "closeStorageTimer (snd (stop_loop L xs s)) = closeStorageTimer s"
  "timers (snd (stop_loop L xs s)) = timers s"
  by (induction xs arbitrary: s)
     (auto simp: stop_loop_Cons close_snd info_def split: sum.splits)

lemma clearInterval_rest:
  "stores (clearInterval t s) = stores s"
  "closeCalls (clearInterval t s) = closeCalls s"
  "world (clearInterval t s) = world s"
  "storageDir (clearInterval t s) = storageDir s"
  "keepOpenInterval (clearInterval t s) = keepOpenInterval s"
  "closeStorageTimer (clearInterval t s) = closeStorageTimer s"
  by (simp_all add: clearInterval_def split: option.splits)

lemma stop_loop_calls:
  "fst (stop_loop L xs s) = Inr () \<Longrightarrow>
     closeCalls (snd (stop_loop L xs s)) = closeCalls s @ map (db \<circ> snd) xs"
proof (induction xs arbitrary: s)
  case Nil
  then show ?case by simp
next
  case (Cons x xs)
  obtain k v where x: "x = (k, v)" by (cases x)
  let ?s1 = "info ''Closing Storage (%s)'' [name v] s"
  show ?case
  proof (cases "fst (close L (db v) ?s1)")
    case (Inl e)
    with Cons.prems x show ?thesis by (simp add: stop_loop_Cons)
  next
    case (Inr u)
    then have step: "stop_loop L (x # xs) s = stop_loop L xs (snd (close L (db v) ?s1))"
      using x by (simp add: stop_loop_Cons)
    with Cons.prems have "fst (stop_loop L xs (snd (close L (db v) ?s1))) = Inr ()" by simp
    from Cons.IH [OF this] show ?thesis
      unfolding step by (simp add: close_snd info_def x)
  qed
qed

lemma idle_stores_filter:
  "idle_stores now interval xs = map snd (filter (\<lambda>(k, v). idle now interval v) xs)"
  by (induction xs) (auto simp: idle_def)

lemma close_loop_calls_subset:
  "set (closeCalls (snd (close_loop L ds s))) \<subseteq> set (closeCalls s) \<union> db ` set ds"
proof (induction ds arbitrary: s)
  case Nil
  then show ?case by simp
next
  case (Cons d ds)
  let ?c = "close L (db d) (info ''Closing storage (%s)'' [name d] s)"
  show ?case
  proof (cases "fst ?c")
    case (Inl e)
    then have "snd (close_loop L (d # ds) s) = snd ?c"
      by (simp add: close_loop_Cons)
    then show ?thesis by (auto simp: close_snd info_def)
  next
    case (Inr u)
    then have "close_loop L (d # ds) s
        = close_loop L ds ((snd ?c)\<lparr>stores := AList.delete (name d) (stores (snd ?c))\<rparr>)"
      by (simp add: close_loop_Cons)
    with Cons.IH [of "(snd ?c)\<lparr>stores := AList.delete (name d) (stores (snd ?c))\<rparr>"]
    show ?thesis by (auto simp: close_snd info_def)
  qed
qed

lemma close_loop_keeps:
  "(k, v) \<in> set (stores s) \<Longrightarrow> k \<notin> name ` set ds
    \<Longrightarrow> (k, v) \<in> set (stores (snd (close_loop L ds s)))"
proof (induction ds arbitrary: s)
  case Nil
  then show ?case by simp
next
  case (Cons d ds)
  let ?c = "close L (db d) (info ''Closing storage (%s)'' [name d] s)"
  show ?case
  proof (cases "fst ?c")
    case (Inl e)
    then have "snd (close_loop L (d # ds) s) = snd ?c"
      by (simp add: close_loop_Cons)
    with Cons.prems show ?thesis by (simp add: close_snd info_def)
  next
    case (Inr u)
    let ?s' = "(snd ?c)\<lparr>stores := AList.delete (name d) (stores (snd ?c))\<rparr>"
    from Inr have eq: "close_loop L (d # ds) s = close_loop L ds ?s'"
      by (simp add: close_loop_Cons)
    from Cons.prems have "(k, v) \<in> set (stores ?s')"
      by (auto simp: close_snd info_def AList.delete_eq)
    with Cons.prems show ?thesis unfolding eq by (intro Cons.IH) auto
  qed
qed

lemma close_loop_done:
  "fst (close_loop L ds s) = Inr () \<Longrightarrow>
     closeCalls (snd (close_loop L ds s)) = closeCalls s @ map db ds
     \<and> stores (snd (close_loop L ds s)) = filter (\<lambda>(k, v). k \<notin> name ` set ds) (stores s)"
proof (induction ds arbitrary: s)
  case Nil
  then show ?case by simp
next
  case (Cons d ds)
  let ?c = "close L (db d) (info ''Closing storage (%s)'' [name d] s)"
  let ?s' = "(snd ?c)\<lparr>stores := AList.delete (name d) (stores (snd ?c))\<rparr>"
  show ?case
  proof (cases "fst ?c")
    case (Inl e)
    with Cons.prems show ?thesis by (simp add: close_loop_Cons)
  next
    case (Inr u)
    then have eq: "close_loop L (d # ds) s = close_loop L ds ?s'"
      by (simp add: close_loop_Cons)
    with Cons.prems have "fst (close_loop L ds ?s') = Inr ()" by simp
    from Cons.IH [OF this] show ?thesis
      unfolding eq
      by (auto simp: close_snd info_def AList.delete_eq intro!: filter_cong)
  qed
qed

lemma selected_names:
  assumes "registry_ok s" and "(k, v) \<in> set (stores s)"
  shows "k \<in> name ` set (idle_stores now (keepOpenInterval s) (stores s))
          \<longleftrightarrow> idle now (keepOpenInterval s) v"
proof
  assume "k \<in> name ` set (idle_stores now (keepOpenInterval s) (stores s))"
  then obtain k' v' where in': "(k', v') \<in> set (stores s)"
    and idle': "idle now (keepOpenInterval s) v'" and nm: "name v' = k"
    by (auto simp: idle_stores_filter)
  from assms(1) in' have "name v' = k'" by (auto simp: registry_ok_def list_all_iff)
  with nm have "k' = k" by simp
  with assms in' have "v' = v"
    by (auto simp: registry_ok_def dest: eq_key_imp_eq_value)
  with idle' show "idle now (keepOpenInterval s) v" by simp
next
  assume "idle now (keepOpenInterval s) v"
  moreover from assms have "name v = k" by (auto simp: registry_ok_def list_all_iff)
  ultimately show "k \<in> name ` set (idle_stores now (keepOpenInterval s) (stores s))"
    using assms(2) by (force simp: idle_stores_filter)
qed

text \<open>
  A sweep in which no \<open>close()\<close> fails removes exactly the records that are idle for
  longer than the interval, and closes exactly their handles, in the order of the map.
\<close>

lemma checkStorage_exact:
  assumes "registry_ok s" and "fst (checkStorage L now s) = Inr ()"
  shows "stores (snd (checkStorage L now s))
           = filter (\<lambda>(k, v). \<not> idle now (keepOpenInterval s) v) (stores s)"
    and "closeCalls (snd (checkStorage L now s))
           = closeCalls s @ map (db \<circ> snd) (filter (\<lambda>(k, v). idle now (keepOpenInterval s) v) (stores s))"
proof -
  let ?ds = "idle_stores now (keepOpenInterval s) (stores s)"
  from assms(2) have ok: "fst (close_loop L ?ds s) = Inr ()" by (simp add: checkStorage_def)
  have "stores (snd (checkStorage L now s)) = filter (\<lambda>(k, v). k \<notin> name ` set ?ds) (stores s)"
    using close_loop_done [OF ok] by (simp add: checkStorage_def)
  also have "\<dots> = filter (\<lambda>(k, v). \<not> idle now (keepOpenInterval s) v) (stores s)"
    using selected_names [OF assms(1)] by (intro filter_cong) auto
  finally show "stores (snd (checkStorage L now s))
           = filter (\<lambda>(k, v). \<not> idle now (keepOpenInterval s) v) (stores s)" .
  show "closeCalls (snd (checkStorage L now s))
           = closeCalls s @ map (db \<circ> snd) (filter (\<lambda>(k, v). idle now (keepOpenInterval s) v) (stores s))"
    using close_loop_done [OF ok] by (simp add: checkStorage_def idle_stores_filter)
qed

text \<open>
  Whatever the closes do, a record that is not idle stays in the map, and \<open>close()\<close> is
  invoked on handles of idle records only.
\<close>

lemma checkStorage_spares:
  assumes "registry_ok s" and "(k, v) \<in> set (stores s)" and "\<not> idle now (keepOpenInterval s) v"
  shows "(k, v) \<in> set (stores (snd (checkStorage L now s)))"
  using assms selected_names [OF assms(1,2), of now]
  by (simp add: checkStorage_def close_loop_keeps)

lemma checkStorage_calls:
  "set (closeCalls (snd (checkStorage L now s)))
     \<subseteq> set (closeCalls s) \<union> db ` set (idle_stores now (keepOpenInterval s) (stores s))"
  using close_loop_calls_subset [of L "idle_stores now (keepOpenInterval s) (stores s)" s]
  by (simp add: checkStorage_def)

lemma count_list_distinct: "distinct xs \<Longrightarrow> x \<in> set xs \<Longrightarrow> count_list xs x = 1"
  by (induction xs) auto

section \<open>Starting the sweep\<close>








text \<open>
  The field holds one timer. A second \<open>start\<close> puts a new timer in the field and
  leaves the first one running, where \<open>stop\<close> does not reach it.
\<close>

lemma stop_timers: "timers (snd (stop L s)) = timers (clearInterval (closeStorageTimer s) s)"
  by (simp add: stop_def stop_loop_timers)

lemma second_start_keeps_first_timer:
  "timers (run mem [Start, Start, Stop] unstarted_engine) = [(0, 1000)]"
  by (simp add: stop_timers start_def setInterval_def Let_def clearInterval_def example_defs)

section \<open>Shutdown\<close>

text \<open>
  What holds of a \<open>stop\<close> that completes: the timer held in the field has been
  cleared, the map holds the same records as before, and \<open>close()\<close> has been invoked
  on the handle of every record of the map, in the order of the map; when no two
  records share a handle, that is exactly once for each record.
\<close>

lemma stop_closes_each_once:
  assumes "fst (stop L s) = Inr ()"
  shows "timers (snd (stop L s)) = timers (clearInterval (closeStorageTimer s) s)
    \<and> stores (snd (stop L s)) = stores s
    \<and> closeCalls (snd (stop L s)) = closeCalls s @ map (db \<circ> snd) (stores s)
    \<and> (distinct (map (db \<circ> snd) (stores s)) \<longrightarrow>
         (\<forall>(k, v) \<in> set (stores s).
            count_list (drop (length (closeCalls s)) (closeCalls (snd (stop L s)))) (db v) = 1))"
proof -
  let ?s0 = "clearInterval (closeStorageTimer s) s"
  from assms have ok: "fst (stop_loop L (stores s) ?s0) = Inr ()" by (simp add: stop_def)
  have calls: "closeCalls (snd (stop L s)) = closeCalls s @ map (db \<circ> snd) (stores s)"
    using stop_loop_calls [OF ok] by (simp add: stop_def clearInterval_rest)
  have "count_list (drop (length (closeCalls s)) (closeCalls (snd (stop L s)))) (db v) = 1"
    if "distinct (map (db \<circ> snd) (stores s))" and "(k, v) \<in> set (stores s)" for k v
  proof -
    from that(2) have "db v \<in> set (map (db \<circ> snd) (stores s))" by force
    with that(1) show ?thesis unfolding calls by (simp add: count_list_distinct)
  qed
  then show ?thesis
    using calls by (auto simp: stop_def stop_loop_stores stop_loop_timers clearInterval_rest)
qed

text \<open>
  Claim C3 does not hold of \<open>stop\<close>: it closes the handles and deletes nothing from
  the map, where the loop of \<open>checkStorage\<close> deletes each record after closing it.
  After a \<open>stop\<close> that completed, both stores are still in the map with their closed
  handles, and \<open>getStore\<close> goes on returning them: a \<open>get\<close> of the key \<open>a\<close> in
  \<open>s1\<close> returns \<open>null\<close> though the key is on disk with the value \<open>1\<close>, and a
  second \<open>stop\<close> invokes \<open>close()\<close> on both handles again. After the sweep has closed
  \<open>s1\<close>, the same \<open>get\<close> opens the store anew and returns \<open>1\<close>.
\<close>

theorem stop_leaves_closed_stores_C3:
  "fst (stop mem example_engine) = Inr ()
   \<and> map fst (stores (snd (stop mem example_engine))) = [''s1'', ''s2'']
   \<and> files (world (snd (stop mem example_engine))) ''/data/s1'' ''a'' = Some ''1''
   \<and> fst (get mem 1300 ''s1'' ''a'' (snd (stop mem example_engine))) = Inr None
   \<and> closeCalls (snd (stop mem (snd (stop mem example_engine))))
       = [(0, ''/data/s1''), (1, ''/data/s2''), (0, ''/data/s1''), (1, ''/data/s2'')]
   \<and> map fst (stores (snd (checkStorage mem 1200 example_engine))) = [''s2'']
   \<and> fst (get mem 1300 ''s1'' ''a'' (snd (checkStorage mem 1200 example_engine))) = Inr (Some ''1'')"
  by (simp add: stop_def clearInterval_def checkStorage_def stop_loop_Cons close_loop_Cons
        close_fst close_snd info_def AList.delete_eq get_fst getStore_def Let_def
        example_defs mem_defs)

section \<open>The sweep\<close>

text \<open>
  Claim C2 does not hold of \<open>checkStorage\<close>: the \<open>await\<close> of a failing \<open>close()\<close>
  throws out of the loop. With both stores idle and the location of \<open>s1\<close>
  unavailable, the sweep at time 2000 ends with the error thrown, \<open>s1\<close> is still in
  the map, \<open>s2\<close> has been neither closed nor removed, and the log holds no error line.
\<close>

theorem checkStorage_throws_C2:
  "fst (checkStorage mem 2000 faulty_engine) = Inl ''IO error''
   \<and> map fst (stores (snd (checkStorage mem 2000 faulty_engine))) = [''s1'', ''s2'']
   \<and> closeCalls (snd (checkStorage mem 2000 faulty_engine)) = [(0, ''/data/s1'')]
   \<and> logged (snd (checkStorage mem 2000 faulty_engine)) = [Info ''Closing storage (%s)'' [''s1'']]"
  by (simp add: checkStorage_def close_loop_Cons close_fst close_snd info_def example_defs mem_defs)

text \<open>
  Claim C4 does not hold of \<open>checkStorage\<close> when a \<open>close()\<close> fails: the record is
  selected, and it stays. At time 1200 the store \<open>s1\<close> has been idle for longer than
  the interval of 1000 and \<open>s2\<close> has not; the location of \<open>s1\<close> is unavailable, and
  after the sweep \<open>s1\<close> is still in the map.
\<close>

theorem checkStorage_leaves_idle_C4:
  "map_of (stores faulty_engine) ''s1'' = Some \<lparr>lastAccessed = 0, name = ''s1'', db = (0, ''/data/s1'')\<rparr>
   \<and> 1200 - 0 > keepOpenInterval faulty_engine
   \<and> map_of (stores (snd (checkStorage mem 1200 faulty_engine))) ''s1''
       = Some \<lparr>lastAccessed = 0, name = ''s1'', db = (0, ''/data/s1'')\<rparr>"
  by (simp add: checkStorage_def close_loop_Cons close_fst close_snd info_def example_defs mem_defs)

section \<open>The routes\<close>

lemma split_no_sep: "c \<notin> set str \<Longrightarrow> split c str = [str]"
proof -
  assume "c \<notin> set str"
  then have d: "dropWhile (\<lambda>x. x \<noteq> c) str = []" by (induction str) auto
  show ?thesis by (subst split.simps) (simp add: d)
qed

lemma split_at_sep: "c \<notin> set n \<Longrightarrow> split c (n @ c # rest) = n # split c rest"
proof -
  assume n: "c \<notin> set n"
  then have d: "dropWhile (\<lambda>x. x \<noteq> c) (n @ c # rest) = c # rest"
    by (induction n) auto
  from n have t: "takeWhile (\<lambda>x. x \<noteq> c) (n @ c # rest) = n"
    by (induction n) auto
  show ?thesis by (subst split.simps) (simp add: d t)
qed

text \<open>
  Claim C9, as stated, fails. An identifier that starts with the separator reaches the
  core with an empty store name: the store \<open>''''\<close> is opened. An identifier that ends
  with the separator reaches the core with an empty key: \<open>s1\<close> is touched at time 700.
  And a key that contains the separator is cut at it: \<open>s1:a:b\<close> reads the key \<open>a\<close>,
  whose value is \<open>1\<close>, where the key \<open>a:b\<close> holds \<open>2\<close>.
\<close>

theorem routes_pass_empty_C9_counterexample:
  "map fst (stores (snd (readRoute mem 700 (Some '':k'') new_engine))) = ['''']
   \<and> map_of (stores (snd (deleteRoute mem 700 (Some ''s1:'') example_engine))) ''s1''
       = Some \<lparr>lastAccessed = 700, name = ''s1'', db = (0, ''/data/s1'')\<rparr>
   \<and> files (world example_engine) ''/data/s1'' ''a:b'' = Some ''2''
   \<and> fst (readRoute mem 700 (Some ''s1:a:b'') example_engine) = Inr ''1''"
  by (simp add: readRoute_def deleteRoute_def split.simps get_def del_def getStore_def
        info_def error_def Let_def example_defs mem_defs)

text \<open>
  Claim C9, amended. A missing identifier, and an identifier without a separator, are
  rejected with status 404 before the core is called: the state is untouched. For an
  identifier with exactly one separator the handler calls \<open>get\<close>, or \<open>del\<close>, with the
  text before the separator as the store name and the text after it as the key, and
  turns the result into its response. Either text may be empty.
\<close>

theorem routes_boundary_C9:
  "readRoute L now None s = (Inl (HttpError 404 ''No ID specified!''), s)
   \<and> deleteRoute L now None s = (Inl (HttpError 404 ''Invalid ID!''), s)
   \<and> (CHR '':'' \<notin> set i \<longrightarrow>
        readRoute L now (Some i) s = (Inl (HttpError 404 ''Invalid ID!''), s)
        \<and> deleteRoute L now (Some i) s = (Inl (HttpError 404 ''Invalid ID''), s))
   \<and> (CHR '':'' \<notin> set n \<and> CHR '':'' \<notin> set k \<longrightarrow>
        readRoute L now (Some (n @ '':'' @ k)) s =
          (case get L now n k s of
             (Inl e, s') \<Rightarrow> (Inl (Exception e), s')
           | (Inr None, s') \<Rightarrow> (Inl (HttpError 404 ''Ooops - can't find that key!''), s')
           | (Inr (Some v), s') \<Rightarrow> (Inr v, s'))
        \<and> deleteRoute L now (Some (n @ '':'' @ k)) s =
          (case del L now n k s of
             (Inl e, s') \<Rightarrow> (Inl (Exception e), s')
           | (Inr False, s') \<Rightarrow> (Inl (HttpError 500 ''Ooops - we have had a problem''), s')
           | (Inr True, s') \<Rightarrow> (Inr (), s')))"
proof (intro conjI impI)
  show "readRoute L now None s = (Inl (HttpError 404 ''No ID specified!''), s)"
    by (simp add: readRoute_def)
  show "deleteRoute L now None s = (Inl (HttpError 404 ''Invalid ID!''), s)"
    by (simp add: deleteRoute_def)
next
  assume "CHR '':'' \<notin> set i"
  then have parts: "split CHR '':'' i = [i]" by (rule split_no_sep)
  show "readRoute L now (Some i) s = (Inl (HttpError 404 ''Invalid ID!''), s)"
    by (simp add: readRoute_def parts)
  show "deleteRoute L now (Some i) s = (Inl (HttpError 404 ''Invalid ID''), s)"
    by (simp add: deleteRoute_def parts)
next
  assume "CHR '':'' \<notin> set n \<and> CHR '':'' \<notin> set k"
  then have parts: "split CHR '':'' (n @ '':'' @ k) = [n, k]"
    by (simp add: split_at_sep split_no_sep)
  show "readRoute L now (Some (n @ '':'' @ k)) s =
          (case get L now n k s of
             (Inl e, s') \<Rightarrow> (Inl (Exception e), s')
           | (Inr None, s') \<Rightarrow> (Inl (HttpError 404 ''Ooops - can't find that key!''), s')
           | (Inr (Some v), s') \<Rightarrow> (Inr v, s'))"
    unfolding readRoute_def by (simp only: parts Let_def option.case index.simps One_nat_def prod.case)
  show "deleteRoute L now (Some (n @ '':'' @ k)) s =
          (case del L now n k s of
             (Inl e, s') \<Rightarrow> (Inl (Exception e), s')
           | (Inr False, s') \<Rightarrow> (Inl (HttpError 500 ''Ooops - we have had a problem''), s')
           | (Inr True, s') \<Rightarrow> (Inr (), s'))"
    unfolding deleteRoute_def by (simp only: parts Let_def option.case index.simps One_nat_def prod.case)
qed

theorem routes_boundary_C9_witness:
  "CHR '':'' \<notin> set ''s1'' \<and> CHR '':'' \<notin> set ''a''
   \<and> fst (readRoute mem 700 (Some ''s1:a'') example_engine) = Inr ''1''
   \<and> fst (deleteRoute mem 700 (Some ''s1:a'') example_engine) = Inr ()
   \<and> readRoute mem 700 (Some ''s1'') example_engine
       = (Inl (HttpError 404 ''Invalid ID!''), example_engine)"
  using routes_boundary_C9 [where L = mem and now = 700 and s = example_engine
          and n = "''s1''" and k = "''a''" and i = "''s1''"]
  by (simp add: get_def del_def getStore_def Let_def example_defs mem_defs)

section \<open>Writing, then reading\<close>

lemma get_mem:
  "fst (get mem now n key s) =
     Inr (case map_of (stores s) n of
            Some d \<Rightarrow> if usable (db d) (world s) then files (world s) (snd (db d)) key else None
          | None \<Rightarrow>
              if storageDir s @ ''/'' @ n \<in> unavailable (world s) then None
              else files (world s) (storageDir s @ ''/'' @ n) key)"
  by (simp add: get_fst getStore_fst getStore_world mem_defs split: option.splits)

lemma write_mem_result:
  "fst (write_kv mem now n key val s)
     = Inr (usable (db (fst (getStore mem now n s))) (world (snd (getStore mem now n s))))"
  by (simp add: write_fst mem_def mem_put_def)

lemma write_mem_world:
  "world (snd (write_kv mem now n key val s)) =
     (let h = db (fst (getStore mem now n s)); w = world (snd (getStore mem now n s))
      in if usable h w then w\<lparr>files := (files w)(snd h := (files w (snd h))(key \<mapsto> val))\<rparr> else w)"
  by (simp add: write_snd error_def Let_def mem_def mem_put_def)

lemma getStore_mem_world:
  "unavailable (world (snd (getStore mem now n s))) = unavailable (world s)"
  "files (world (snd (getStore mem now n s))) = files (world s)"
  "opened (world (snd (getStore mem now n s))) =
     (case map_of (stores s) n of
        Some d \<Rightarrow> opened (world s)
      | None \<Rightarrow> insert (next_handle (world s)) (opened (world s)))"
  by (simp_all add: getStore_world mem_def mem_open_def split: option.splits)

lemma getStore_mem_location:
  assumes "handles_ok s"
  shows "snd (db (fst (getStore mem now n s))) = storageDir s @ ''/'' @ n"
proof (cases "map_of (stores s) n")
  case None
  then show ?thesis by (simp add: getStore_fst mem_def mem_open_def)
next
  case (Some d)
  then have "(n, d) \<in> set (stores s)" by (rule map_of_SomeD)
  with assms have "snd (db d) = storageDir s @ ''/'' @ n"
    by (auto simp: handles_ok_def list_all_iff)
  with Some show ?thesis by (simp add: getStore_fst)
qed

text \<open>
  Claim C1. On the layer in memory: when \<open>write\<close> of \<open>val\<close> under \<open>key\<close> in store
  \<open>n\<close> returns \<open>true\<close>, a \<open>get\<close> of \<open>key\<close> in \<open>n\<close> that follows returns \<open>val\<close>.
  And whatever the write returns, a \<open>get\<close> of any key in another store returns after
  the write what it would have returned without it.
\<close>

theorem write_then_get_C1:
  "(fst (write_kv mem now n key val s) = Inr True \<longrightarrow>
      fst (get mem now' n key (snd (write_kv mem now n key val s))) = Inr (Some val))
   \<and> (handles_ok s \<and> n2 \<noteq> n \<longrightarrow>
        fst (get mem now' n2 key2 (snd (write_kv mem now n key val s)))
          = fst (get mem now' n2 key2 s))"
proof (intro conjI impI)
  let ?s2 = "snd (write_kv mem now n key val s)"
  let ?d = "fst (getStore mem now n s)"
  let ?w = "world (snd (getStore mem now n s))"
  assume "fst (write_kv mem now n key val s) = Inr True"
  then have ok: "usable (db ?d) ?w" by (simp add: write_mem_result)
  have entry: "map_of (stores ?s2) n = Some ?d"
    by (simp add: crud_stores getStore_this)
  from ok have "usable (db ?d) (world ?s2)"
    and "files (world ?s2) (snd (db ?d)) key = Some val"
    by (simp_all add: write_mem_world Let_def usable_def)
  with entry show "fst (get mem now' n key ?s2) = Inr (Some val)"
    by (simp add: get_mem)
next
  let ?s2 = "snd (write_kv mem now n key val s)"
  let ?h = "db (fst (getStore mem now n s))"
  assume "handles_ok s \<and> n2 \<noteq> n"
  then have inv: "handles_ok s" and ne: "n2 \<noteq> n" by simp_all
  have loc: "snd ?h = storageDir s @ ''/'' @ n"
    using inv by (rule getStore_mem_location)
  have entry: "map_of (stores ?s2) n2 = map_of (stores s) n2"
    using ne by (simp add: crud_stores getStore_other)
  have dir: "storageDir ?s2 = storageDir s" by (simp add: crud_config)
  have unav: "unavailable (world ?s2) = unavailable (world s)"
    by (simp add: write_mem_world Let_def getStore_mem_world)
  have fil: "files (world ?s2) (storageDir s @ ''/'' @ n2) = files (world s) (storageDir s @ ''/'' @ n2)"
    using ne by (simp add: write_mem_world Let_def getStore_mem_world loc)
  show "fst (get mem now' n2 key2 ?s2) = fst (get mem now' n2 key2 s)"
  proof (cases "map_of (stores s) n2")
    case None
    with entry dir unav fil show ?thesis by (simp add: get_mem)
  next
    case (Some d2)
    then have "(n2, d2) \<in> set (stores s)" by (rule map_of_SomeD)
    with inv have old: "fst (db d2) < next_handle (world s)"
      and at: "snd (db d2) = storageDir s @ ''/'' @ n2"
      by (auto simp: handles_ok_def list_all_iff)
    have "opened (world ?s2) = opened (world s)
        \<or> opened (world ?s2) = insert (next_handle (world s)) (opened (world s))"
      by (simp add: write_mem_world Let_def getStore_mem_world split: option.splits)
    with old have "fst (db d2) \<in> opened (world ?s2) \<longleftrightarrow> fst (db d2) \<in> opened (world s)"
      by auto
    with unav have "usable (db d2) (world ?s2) \<longleftrightarrow> usable (db d2) (world s)"
      by (simp add: usable_def)
    with entry Some fil at show ?thesis by (simp add: get_mem)
  qed
qed

theorem write_then_get_C1_witness:
  "fst (write_kv mem 700 ''s2'' ''a'' ''v1'' example_engine) = Inr True
   \<and> fst (get mem 800 ''s2'' ''a'' (snd (write_kv mem 700 ''s2'' ''a'' ''v1'' example_engine))) = Inr (Some ''v1'')
   \<and> handles_ok example_engine \<and> ''s1'' \<noteq> ''s2''
   \<and> fst (get mem 800 ''s1'' ''a'' (snd (write_kv mem 700 ''s2'' ''a'' ''v1'' example_engine))) = Inr (Some ''1'')
   \<and> fst (get mem 800 ''s3'' ''a'' (snd (write_kv mem 700 ''s2'' ''a'' ''v1'' example_engine))) = Inr None"
proof -
  have w: "fst (write_kv mem 700 ''s2'' ''a'' ''v1'' example_engine) = Inr True"
    by (simp add: write_fst getStore_def Let_def example_defs mem_defs)
  have h: "handles_ok example_engine"
    by (simp add: handles_ok_def example_defs)
  have g1: "fst (get mem 800 ''s1'' ''a'' example_engine) = Inr (Some ''1'')"
    by (simp add: get_mem example_defs usable_def)
  have g3: "fst (get mem 800 ''s3'' ''a'' example_engine) = Inr None"
    by (simp add: get_mem example_defs usable_def)
  from write_then_get_C1 [where now = 700 and n = "''s2''" and key = "''a''" and val = "''v1''"
      and s = example_engine and now' = 800 and ?n2.0 = "''s1''" and ?key2.0 = "''a''"]
    write_then_get_C1 [where now = 700 and n = "''s2''" and key = "''a''" and val = "''v1''"
      and s = example_engine and now' = 800 and ?n2.0 = "''s3''" and ?key2.0 = "''a''"]
    w h g1 g3
  show ?thesis by simp
qed

section \<open>The invariants hold in every run\<close>

lemma set_update_subset: "set (AList.update k v al) \<subseteq> insert (k, v) (set al)"
  by (induction al) auto

lemma close_loop_stores:
  "\<exists>ks. stores (snd (close_loop L ds s)) = filter (\<lambda>(k, v). k \<notin> set ks) (stores s)"
proof (induction ds arbitrary: s)
  case Nil
  have "stores s = filter (\<lambda>(k, v). k \<notin> set []) (stores s)" by simp
  then show ?case by (metis close_loop.simps(1) snd_conv)
next
  case (Cons d ds)
  let ?c = "close L (db d) (info ''Closing storage (%s)'' [name d] s)"
  let ?s' = "(snd ?c)\<lparr>stores := AList.delete (name d) (stores (snd ?c))\<rparr>"
  show ?case
  proof (cases "fst ?c")
    case (Inl e)
    then have "stores (snd (close_loop L (d # ds) s)) = filter (\<lambda>(k, v). k \<notin> set []) (stores s)"
      by (simp add: close_loop_Cons close_snd info_def)
    then show ?thesis by blast
  next
    case (Inr u)
    then have eq: "close_loop L (d # ds) s = close_loop L ds ?s'"
      by (simp add: close_loop_Cons)
    from Cons.IH [of ?s'] obtain ks
      where "stores (snd (close_loop L ds ?s')) = filter (\<lambda>(k, v). k \<notin> set ks) (stores ?s')"
      by blast
    then have "stores (snd (close_loop L (d # ds) s))
        = filter (\<lambda>(k, v). k \<notin> set (name d # ks)) (stores s)"
      unfolding eq
      by (auto simp: close_snd info_def AList.delete_eq intro!: filter_cong)
    then show ?thesis by blast
  qed
qed

lemma close_loop_rest:
  "storageDir (snd (close_loop L ds s)) = storageDir s"
  "keepOpenInterval (snd (close_loop L ds s)) = keepOpenInterval s"
  by (induction ds arbitrary: s)
     (auto simp: close_loop_Cons close_snd info_def split: sum.splits)

lemma stop_loop_rest:
  "storageDir (snd (stop_loop L xs s)) = storageDir s"
  "keepOpenInterval (snd (stop_loop L xs s)) = keepOpenInterval s"
  by (induction xs arbitrary: s)
     (auto simp: stop_loop_Cons close_snd info_def split: sum.splits)

lemma registry_ok_filter:
  "registry_ok s \<Longrightarrow> stores s' = filter P (stores s) \<Longrightarrow> registry_ok s'"
  by (simp add: registry_ok_def distinct_map_filter list_all_iff)

lemma registry_ok_constructor: "registry_ok (constructor dir interval w)"
  by (simp add: registry_ok_def constructor_def)

lemma registry_ok_getStore:
  assumes "registry_ok s"
  shows "registry_ok (snd (getStore L now n s))"
proof -
  have nm: "name (fst (getStore L now n s)) = n"
  proof (cases "map_of (stores s) n")
    case None
    then show ?thesis by (simp add: getStore_fst)
  next
    case (Some d)
    then have "(n, d) \<in> set (stores s)" by (rule map_of_SomeD)
    with assms have "name d = n" by (auto simp: registry_ok_def list_all_iff)
    with Some show ?thesis by (simp add: getStore_fst)
  qed
  with assms set_update_subset [of n "fst (getStore L now n s)" "stores s"]
  show ?thesis
    by (auto simp: registry_ok_def getStore_stores distinct_update list_all_iff)
qed

lemma registry_ok_same: "registry_ok s \<Longrightarrow> stores s' = stores s \<Longrightarrow> registry_ok s'"
  by (simp add: registry_ok_def)

lemma registry_ok_step:
  assumes "registry_ok s"
  shows "registry_ok (step L ev s)"
proof (cases ev)
  case Start
  with assms show ?thesis by (simp add: start_def setInterval_def Let_def registry_ok_def)
next
  case Stop
  with assms show ?thesis
    by (simp add: stop_def registry_ok_def stop_loop_stores clearInterval_rest)
next
  case (TimerFires t now)
  obtain ks where "stores (snd (checkStorage L now s)) = filter (\<lambda>(k, v). k \<notin> set ks) (stores s)"
    using close_loop_stores [of L "idle_stores now (keepOpenInterval s) (stores s)" s]
    by (auto simp: checkStorage_def)
  with assms have "registry_ok (snd (checkStorage L now s))" by (rule registry_ok_filter)
  with TimerFires assms show ?thesis by simp
next
  case (Get now n key)
  with registry_ok_getStore [OF assms, of L now n] show ?thesis
    by (simp add: registry_ok_def crud_stores)
next
  case (Write now n key val)
  with registry_ok_getStore [OF assms, of L now n] show ?thesis
    by (simp add: registry_ok_def crud_stores)
next
  case (Del now n key)
  with registry_ok_getStore [OF assms, of L now n] show ?thesis
    by (simp add: registry_ok_def crud_stores)
next
  case (ReadRoute now ident)
  from readRoute_snd [of L now ident s]
  have "registry_ok (snd (readRoute L now ident s))"
  proof
    assume "snd (readRoute L now ident s) = s"
    with assms show ?thesis by simp
  next
    assume "\<exists>p0 p1. snd (readRoute L now ident s) = snd (get L now p0 p1 s)"
    then obtain p0 p1 where "snd (readRoute L now ident s) = snd (get L now p0 p1 s)" by blast
    with registry_ok_getStore [OF assms, of L now p0] show ?thesis
      by (simp add: registry_ok_def crud_stores)
  qed
  with ReadRoute show ?thesis by simp
next
  case (DeleteRoute now ident)
  from deleteRoute_snd [of L now ident s]
  have "registry_ok (snd (deleteRoute L now ident s))"
  proof
    assume "snd (deleteRoute L now ident s) = s"
    with assms show ?thesis by simp
  next
    assume "\<exists>p0 p1. snd (deleteRoute L now ident s) = snd (del L now p0 p1 s)"
    then obtain p0 p1 where "snd (deleteRoute L now ident s) = snd (del L now p0 p1 s)" by blast
    with registry_ok_getStore [OF assms, of L now p0] show ?thesis
      by (simp add: registry_ok_def crud_stores)
  qed
  with DeleteRoute show ?thesis by simp
qed

lemma registry_ok_run: "registry_ok s \<Longrightarrow> registry_ok (run L evs s)"
  by (induction evs arbitrary: s) (simp_all add: registry_ok_step)

lemma mem_next_handle:
  "next_handle (snd (mem_get h key w)) = next_handle w"
  "next_handle (snd (mem_put h key val w)) = next_handle w"
  "next_handle (snd (mem_del h key w)) = next_handle w"
  "next_handle (snd (mem_close h w)) = next_handle w"
  by (simp_all add: mem_get_def mem_put_def mem_del_def mem_close_def)

lemma handles_ok_mono:
  assumes "handles_ok s" and "set (stores s') \<subseteq> set (stores s)"
    and "storageDir s' = storageDir s" and "next_handle (world s) \<le> next_handle (world s')"
  shows "handles_ok s'"
  using assms by (fastforce simp: handles_ok_def list_all_iff)

lemma handles_ok_constructor: "handles_ok (constructor dir interval w)"
  by (simp add: handles_ok_def constructor_def)

lemma handles_ok_getStore:
  assumes "handles_ok s"
  shows "handles_ok (snd (getStore mem now n s))"
proof (cases "map_of (stores s) n")
  case None
  with assms set_update_subset [of n "fst (getStore mem now n s)" "stores s"] show ?thesis
    by (fastforce simp: handles_ok_def list_all_iff getStore_stores getStore_fst getStore_world
          getStore_rest mem_def mem_open_def)
next
  case (Some d)
  then have "(n, d) \<in> set (stores s)" by (rule map_of_SomeD)
  with Some assms set_update_subset [of n "fst (getStore mem now n s)" "stores s"] show ?thesis
    by (fastforce simp: handles_ok_def list_all_iff getStore_stores getStore_fst getStore_world
          getStore_rest)
qed

lemma handles_ok_crud:
  assumes "handles_ok s"
  shows "handles_ok (snd (get mem now n key s))"
    and "handles_ok (snd (write_kv mem now n key val s))"
    and "handles_ok (snd (del mem now n key s))"
proof -
  let ?g = "snd (getStore mem now n s)"
  have g: "handles_ok ?g" using assms by (rule handles_ok_getStore)
  have "next_handle (world (snd (get mem now n key s))) = next_handle (world ?g)"
    by (simp add: get_snd Let_def error_def mem_def mem_next_handle split: promise.splits)
  with g show "handles_ok (snd (get mem now n key s))"
    by (intro handles_ok_mono [OF g]) (simp_all add: crud_stores crud_config getStore_rest)
  have "next_handle (world (snd (write_kv mem now n key val s))) = next_handle (world ?g)"
    by (simp add: write_snd Let_def error_def mem_def mem_next_handle split: promise.splits)
  with g show "handles_ok (snd (write_kv mem now n key val s))"
    by (intro handles_ok_mono [OF g]) (simp_all add: crud_stores crud_config getStore_rest)
  have "next_handle (world (snd (del mem now n key s))) = next_handle (world ?g)"
    by (simp add: del_snd Let_def error_def mem_def mem_next_handle split: promise.splits)
  with g show "handles_ok (snd (del mem now n key s))"
    by (intro handles_ok_mono [OF g]) (simp_all add: crud_stores crud_config getStore_rest)
qed

lemma close_loop_next_handle:
  "next_handle (world (snd (close_loop mem ds s))) = next_handle (world s)"
  by (induction ds arbitrary: s)
     (auto simp: close_loop_Cons close_snd info_def mem_def mem_next_handle split: sum.splits)

lemma stop_loop_next_handle:
  "next_handle (world (snd (stop_loop mem xs s))) = next_handle (world s)"
  by (induction xs arbitrary: s)
     (auto simp: stop_loop_Cons close_snd info_def mem_def mem_next_handle split: sum.splits)

lemma handles_ok_step:
  assumes "handles_ok s"
  shows "handles_ok (step mem ev s)"
proof (cases ev)
  case Start
  with assms show ?thesis by (simp add: start_def setInterval_def Let_def handles_ok_def)
next
  case Stop
  have "handles_ok (snd (stop mem s))"
    using assms
    by (intro handles_ok_mono [OF assms])
       (simp_all add: stop_def stop_loop_stores stop_loop_rest stop_loop_next_handle
          clearInterval_rest)
  with Stop show ?thesis by simp
next
  case (TimerFires t now)
  obtain ks where "stores (snd (checkStorage mem now s)) = filter (\<lambda>(k, v). k \<notin> set ks) (stores s)"
    using close_loop_stores [of mem "idle_stores now (keepOpenInterval s) (stores s)" s]
    by (auto simp: checkStorage_def)
  then have "handles_ok (snd (checkStorage mem now s))"
    by (intro handles_ok_mono [OF assms])
       (simp_all add: checkStorage_def close_loop_rest close_loop_next_handle)
  with TimerFires assms show ?thesis by simp
next
  case (ReadRoute now ident)
  from readRoute_snd [of mem now ident s]
  have "handles_ok (snd (readRoute mem now ident s))"
    using assms by (auto simp: handles_ok_crud)
  with ReadRoute show ?thesis by simp
next
  case (DeleteRoute now ident)
  from deleteRoute_snd [of mem now ident s]
  have "handles_ok (snd (deleteRoute mem now ident s))"
    using assms by (auto simp: handles_ok_crud)
  with DeleteRoute show ?thesis by simp
qed (use assms in \<open>simp_all add: handles_ok_crud\<close>)

lemma handles_ok_run: "handles_ok s \<Longrightarrow> handles_ok (run mem evs s)"
  by (induction evs arbitrary: s) (simp_all add: handles_ok_step)

text \<open>
  With the layer in memory no two records of a reachable map share a handle: a handle
  carries the location it was opened at, and the location names the store.
\<close>

lemma distinct_handles:
  assumes "registry_ok s" and "handles_ok s"
  shows "distinct (map (db \<circ> snd) (stores s))"
proof -
  from assms(1) have d: "distinct (map fst (stores s))" by (simp add: registry_ok_def)
  then have "distinct (stores s)" by (rule distinct_map [THEN iffD1, THEN conjunct1])
  moreover have "inj_on (db \<circ> snd) (set (stores s))"
  proof (rule inj_onI)
    fix x y assume x: "x \<in> set (stores s)" and y: "y \<in> set (stores s)"
      and eq: "(db \<circ> snd) x = (db \<circ> snd) y"
    obtain k v where xv: "x = (k, v)" by (cases x)
    obtain k' v' where yv: "y = (k', v')" by (cases y)
    from assms(2) x y xv yv have "snd (db v) = storageDir s @ ''/'' @ k"
      and "snd (db v') = storageDir s @ ''/'' @ k'"
      by (auto simp: handles_ok_def list_all_iff)
    with eq xv yv have "k = k'" by simp
    with d x y xv yv show "x = y" by (auto dest: eq_key_imp_eq_value)
  qed
  ultimately show ?thesis by (simp add: distinct_map)
qed

text \<open>
  The example engine is the state of a run: two writes to \<open>s1\<close> at time 0, a read of
  \<open>s2\<close> at time 500, then \<open>start\<close> (here with the two lines that opening the stores
  has logged).
\<close>

lemma example_engine_reached:
  "run mem [Write 0 ''s1'' ''a'' ''1'', Write 0 ''s1'' ''a:b'' ''2'', Get 500 ''s2'' ''x'', Start]
       (constructor ''/data'' 1000 empty_disk)
     = example_engine\<lparr>logged := [Info ''Creating/Opening storage (%s)'' [''s1''],
                                  Info ''Creating/Opening storage (%s)'' [''s2'']]\<rparr>"
  by (simp add: example_defs start_def setInterval_def write_snd get_snd getStore_def info_def
        Let_def mem_defs insert_commute fun_eq_iff)

end
